theory Spec2Isabelle
  imports Complex_Main "HOL-Library.AList" "HOL-Library.Multiset" "HOL-Library.Sublist"
begin

section \<open>The latency analyzer of \<^verbatim>\<open>general_latency_analyzer.py\<close>\<close>

text \<open>
  The theory embeds the methods of \<^verbatim>\<open>GeneralLatencyAnalyzer\<close> that detect packet loss,
  read a latency section, pick the dominant stage, match the sessions of the two
  directions and analyse a matched pair. Conventions of the embedding:

  \<^item> A Python \<^verbatim>\<open>dict\<close> whose iteration order the code relies on is an association list
    in insertion order; storing a key is \<open>AList.update\<close>, which replaces the value of a
    key in place and appends a new key at the end, as the dictionary does. A dictionary
    that is only looked up is a map.
  \<^item> A Python \<^verbatim>\<open>float\<close> is a \<open>real\<close>: the code compares latencies, subtracts two of
    them and halves the result; rounding to the nearest double is not modelled.
  \<^item> A Python \<^verbatim>\<open>str\<close> is a \<open>string\<close>; its characters are the code points below 256.
  \<^item> An exception is a value of the type \<open>error\<close>, returned in a sum.
\<close>

subsection \<open>Characters, \<^verbatim>\<open>str.strip\<close> and the regular expressions\<close>

text \<open>
  \<^verbatim>\<open>\s\<close> and \<^verbatim>\<open>str.strip()\<close> use the white space of \<^verbatim>\<open>str.isspace\<close>: the code points
  9 to 13, 28 to 32, 133 and 160 among those below 256. \<^verbatim>\<open>\d\<close> is a decimal digit.
\<close>

definition is_space :: "char \<Rightarrow> bool" where
  "is_space c = (let n = (of_char c :: nat)
                 in (9 \<le> n \<and> n \<le> 13) \<or> (28 \<le> n \<and> n \<le> 32) \<or> n = 133 \<or> n = 160)"

definition is_digit :: "char \<Rightarrow> bool" where
  "is_digit c = (let n = (of_char c :: nat) in 48 \<le> n \<and> n \<le> 57)"

definition strip :: "string \<Rightarrow> string" where
  "strip s = rev (dropWhile is_space (rev (dropWhile is_space s)))"

text \<open>
  The regular expressions of the analyzer repeat single characters only, so the syntax
  has a literal, one character of a class, the greedy repetitions \<^verbatim>\<open>*\<close> and \<^verbatim>\<open>+\<close> and
  the lazy repetition \<^verbatim>\<open>*?\<close> of a class, sequence, alternative and capturing group.
\<close>

datatype regex =
    Lit string
  | One "char \<Rightarrow> bool"
  | Many "char \<Rightarrow> bool"
  | Many1 "char \<Rightarrow> bool"
  | Few "char \<Rightarrow> bool"
  | Seq regex regex
  | Alt regex regex
  | Group regex

text \<open>
  The remainders a repetition can leave, in the order a backtracking matcher tries
  them: the longest run first when greedy, the shortest first when lazy.
\<close>

fun repeat_greedy :: "(char \<Rightarrow> bool) \<Rightarrow> string \<Rightarrow> string list" where
  "repeat_greedy p [] = [[]]"
| "repeat_greedy p (c # cs) = (if p c then repeat_greedy p cs @ [c # cs] else [c # cs])"

fun repeat_lazy :: "(char \<Rightarrow> bool) \<Rightarrow> string \<Rightarrow> string list" where
  "repeat_lazy p [] = [[]]"
| "repeat_lazy p (c # cs) = (c # cs) # (if p c then repeat_lazy p cs else [])"

text \<open>
  \<open>rmatch r s caps\<close> lists every way \<open>r\<close> matches a prefix of \<open>s\<close>, as the remaining
  text and the groups captured so far, in the order backtracking finds them; the head
  of the list is the match \<^verbatim>\<open>re\<close> reports. A group appends the text it consumed.
\<close>

fun rmatch :: "regex \<Rightarrow> string \<Rightarrow> string list \<Rightarrow> (string \<times> string list) list" where
  "rmatch (Lit w) s caps = (if prefix w s then [(drop (length w) s, caps)] else [])"
| "rmatch (One p) s caps = (case s of [] \<Rightarrow> [] | c # cs \<Rightarrow> if p c then [(cs, caps)] else [])"
| "rmatch (Many p) s caps = map (\<lambda>r. (r, caps)) (repeat_greedy p s)"
| "rmatch (Many1 p) s caps =
     (case s of [] \<Rightarrow> []
      | c # cs \<Rightarrow> if p c then map (\<lambda>r. (r, caps)) (repeat_greedy p cs) else [])"
| "rmatch (Few p) s caps = map (\<lambda>r. (r, caps)) (repeat_lazy p s)"
| "rmatch (Seq a b) s caps = concat (map (\<lambda>(r, c). rmatch b r c) (rmatch a s caps))"
| "rmatch (Alt a b) s caps = rmatch a s caps @ rmatch b s caps"
| "rmatch (Group a) s caps =
     map (\<lambda>(r, c). (r, c @ [take (length s - length r) s])) (rmatch a s caps)"

text \<open>\<^verbatim>\<open>re.search\<close>: the first match at the leftmost position that has one; its groups.\<close>

fun re_search :: "regex \<Rightarrow> string \<Rightarrow> string list option" where
  "re_search r [] = (case rmatch r [] [] of [] \<Rightarrow> None | (rest, caps) # _ \<Rightarrow> Some caps)"
| "re_search r (c # cs) =
     (case rmatch r (c # cs) [] of [] \<Rightarrow> re_search r cs | (rest, caps) # _ \<Rightarrow> Some caps)"

text \<open>
  The pattern of a latency line,
  \<^verbatim>\<open>\[\s*(\d+)->(\d+)\s*\].*?:\s*([\d.]+|N/A)\s*us\<close>; \<^verbatim>\<open>.\<close> is any character but a
  line feed.
\<close>

definition latency_pattern :: regex where
  "latency_pattern =
     foldr Seq
       [Lit ''['', Many is_space, Group (Many1 is_digit), Lit ''->'', Group (Many1 is_digit),
        Many is_space, Lit '']'', Few (\<lambda>c. c \<noteq> CHR 0x0A), Lit '':'', Many is_space,
        Group (Alt (Many1 (\<lambda>c. is_digit c \<or> c = CHR ''.'')) (Lit ''N/A'')),
        Many is_space]
       (Lit ''us'')"

text \<open>
  \<^verbatim>\<open>float(latency_str)\<close> on the strings the third group can hold, which consist of
  digits and dots: the decimal number when there is at most one dot and at least one
  digit, and \<^verbatim>\<open>ValueError\<close> otherwise.
\<close>

datatype error = ValueError

definition digits_value :: "string \<Rightarrow> nat" where
  "digits_value ds = foldl (\<lambda>n c. 10 * n + (of_char c - 48)) 0 ds"

definition py_float :: "string \<Rightarrow> error + real" where
  "py_float s =
     (let int_part = takeWhile is_digit s; rest = dropWhile is_digit s
      in case rest of
           [] \<Rightarrow> if int_part = [] then Inl ValueError else Inr (real (digits_value int_part))
         | c # frac_part \<Rightarrow>
             if c = CHR ''.'' \<and> list_all is_digit frac_part \<and> (int_part \<noteq> [] \<or> frac_part \<noteq> [])
               then Inr (real (digits_value int_part)
                         + real (digits_value frac_part) / 10 ^ length frac_part)
             else Inl ValueError)"

subsection \<open>Session Record Parser: a latency section\<close>

text \<open>
  \<^verbatim>\<open>parse_path_latencies(lines, section_name)\<close>. The loop carries \<^verbatim>\<open>in_section\<close> and
  the dictionary \<^verbatim>\<open>latencies\<close>; \<^verbatim>\<open>break\<close> returns the dictionary, and a \<^verbatim>\<open>ValueError\<close>
  of \<^verbatim>\<open>float\<close> leaves the function.
\<close>

type_synonym latencies = "(string \<times> real) list"

fun path_latencies_loop :: "string list \<Rightarrow> string \<Rightarrow> bool \<Rightarrow> latencies \<Rightarrow> error + latencies" where
  "path_latencies_loop [] section_name in_section latencies = Inr latencies"
| "path_latencies_loop (line # rest) section_name in_section latencies =
     (if prefix section_name (strip line)
        then path_latencies_loop rest section_name True latencies
      else if (prefix ''Path'' (strip line) \<or> prefix ''Total'' (strip line)) \<and> in_section
        then Inr latencies
      else if in_section \<and> strip line \<noteq> [] then
        (case re_search latency_pattern line of
           Some [start_stage, end_stage, latency_str] \<Rightarrow>
             if latency_str \<noteq> ''N/A'' then
               (case py_float latency_str of
                  Inl e \<Rightarrow> Inl e
                | Inr v \<Rightarrow> path_latencies_loop rest section_name in_section
                            (AList.update (start_stage @ ''->'' @ end_stage) v latencies))
             else path_latencies_loop rest section_name in_section latencies
         | _ \<Rightarrow> path_latencies_loop rest section_name in_section latencies)
      else path_latencies_loop rest section_name in_section latencies)"

definition parse_path_latencies :: "string list \<Rightarrow> string \<Rightarrow> error + latencies" where
  "parse_path_latencies lines section_name = path_latencies_loop lines section_name False []"

text \<open>
  The lines of the input that the loop reads as the body of the section: those that
  reach the test of the latency pattern, between the section's header and the next
  header or the total line.
\<close>

fun section_body :: "string list \<Rightarrow> string \<Rightarrow> bool \<Rightarrow> string list" where
  "section_body [] section_name in_section = []"
| "section_body (line # rest) section_name in_section =
     (if prefix section_name (strip line) then section_body rest section_name True
      else if (prefix ''Path'' (strip line) \<or> prefix ''Total'' (strip line)) \<and> in_section then []
      else if in_section \<and> strip line \<noteq> [] then line # section_body rest section_name in_section
      else section_body rest section_name in_section)"

subsection \<open>Loss Detector\<close>

text \<open>
  \<^verbatim>\<open>detect_packet_loss(skb_pointers)\<close>. The argument is a dictionary from integer stage
  indices to pointer tokens that is only looked up, so it is a map. The result is the
  triple \<^verbatim>\<open>(drop, drop_reason, corrupted_stages)\<close>: the reason \<^verbatim>\<open>None\<close> is \<open>None\<close>, and the
  corrupted stages are the list the code returns.
\<close>

type_synonym skb_pointers = "int \<rightharpoonup> string"

definition detect_packet_loss :: "skb_pointers \<Rightarrow> bool \<times> string option \<times> string list" where
  "detect_packet_loss skb_pointers =
     (case (skb_pointers 0, skb_pointers 1, skb_pointers 2) of
        (Some stage_0_ptr, Some stage_1_ptr, Some stage_2_ptr) \<Rightarrow>
          if stage_0_ptr = stage_1_ptr \<and> stage_1_ptr \<noteq> stage_2_ptr
            then (True, Some ''Stage_1_to_2_SKB_Mismatch'', [''1->2''])
          else if stage_0_ptr \<noteq> stage_1_ptr
            then (True, Some ''Stage_0_to_1_SKB_Mismatch'', [''0->1''])
          else (False, None, [])
      | _ \<Rightarrow> (False, None, []))"

text \<open>
  The reference decision function, written from the specification's words: the three
  rules in their priority order when stages 0, 1 and 2 are all present, and no loss
  when one of them is missing. Its third component is a set.
\<close>

definition loss_reference :: "skb_pointers \<Rightarrow> bool \<times> string option \<times> string set" where
  "loss_reference ptrs =
     (if 0 \<in> dom ptrs \<and> 1 \<in> dom ptrs \<and> 2 \<in> dom ptrs then
        (if ptrs 0 = ptrs 1 \<and> ptrs 1 \<noteq> ptrs 2
           then (True, Some ''Stage_1_to_2_SKB_Mismatch'', {''1->2''})
         else if ptrs 0 \<noteq> ptrs 1
           then (True, Some ''Stage_0_to_1_SKB_Mismatch'', {''0->1''})
         else (False, None, {}))
      else (False, None, {}))"

definition as_verdict :: "bool \<times> string option \<times> string list \<Rightarrow> bool \<times> string option \<times> string set" where
  "as_verdict r = (case r of (lost, reason, corrupted) \<Rightarrow> (lost, reason, set corrupted))"

subsection \<open>Stage-Latency Resolver\<close>

text \<open>
  \<^verbatim>\<open>find_max_latency_excluding_corrupted(path1_latencies, path2_latencies,
  corrupted_stages)\<close>. The two loops run over \<^verbatim>\<open>items()\<close> in dictionary order and carry
  \<^verbatim>\<open>(max_stage, max_latency)\<close>, which starts as \<^verbatim>\<open>(None, 0)\<close>. The test \<^verbatim>\<open>if latency\<close> of a
  number is \<open>latency \<noteq> 0\<close>.
\<close>

fun scan_path1 :: "latencies \<Rightarrow> string list \<Rightarrow> string option \<times> real \<Rightarrow> string option \<times> real" where
  "scan_path1 [] corrupted_stages acc = acc"
| "scan_path1 ((stage_pair, latency) # rest) corrupted_stages (max_stage, max_latency) =
     (if latency \<noteq> 0 \<and> stage_pair \<notin> set corrupted_stages then
        (if latency > max_latency
           then scan_path1 rest corrupted_stages (Some (''Path1_'' @ stage_pair), latency)
         else scan_path1 rest corrupted_stages (max_stage, max_latency))
      else scan_path1 rest corrupted_stages (max_stage, max_latency))"

fun scan_path2 :: "latencies \<Rightarrow> string option \<times> real \<Rightarrow> string option \<times> real" where
  "scan_path2 [] acc = acc"
| "scan_path2 ((stage_pair, latency) # rest) (max_stage, max_latency) =
     (if latency \<noteq> 0 \<and> latency > max_latency
        then scan_path2 rest (Some (''Path2_'' @ stage_pair), latency)
      else scan_path2 rest (max_stage, max_latency))"

definition find_max_latency_excluding_corrupted ::
  "latencies \<Rightarrow> latencies \<Rightarrow> string list \<Rightarrow> string option \<times> real" where
  "find_max_latency_excluding_corrupted path1_latencies path2_latencies corrupted_stages =
     scan_path2 path2_latencies (scan_path1 path1_latencies corrupted_stages (None, 0))"

text \<open>
  The resolver in the specification's words. The candidates are the path-1 entries
  whose label is not corrupted, then all path-2 entries, each in mapping order and
  labelled with its path; \<open>first_max\<close> scans candidates and replaces the running
  maximum on a strict improvement only.
\<close>

definition candidates :: "latencies \<Rightarrow> latencies \<Rightarrow> string list \<Rightarrow> (string \<times> real) list" where
  "candidates path1 path2 corrupted =
     map (\<lambda>(k, v). (''Path1_'' @ k, v)) (filter (\<lambda>(k, v). k \<notin> set corrupted) path1)
     @ map (\<lambda>(k, v). (''Path2_'' @ k, v)) path2"

fun first_max :: "(string \<times> real) list \<Rightarrow> string option \<times> real \<Rightarrow> string option \<times> real" where
  "first_max [] acc = acc"
| "first_max ((l, v) # cs) (ms, ml) =
     (if v > ml then first_max cs (Some l, v) else first_max cs (ms, ml))"

subsection \<open>Session records\<close>

text \<open>
  The dictionary \<^verbatim>\<open>parse_session_block\<close> returns is the record \<open>parsed_session\<close>;
  \<^verbatim>\<open>load_and_parse_data\<close> then stores the key \<^verbatim>\<open>pair_name\<close> in it, which gives the
  record \<open>session\<close>. The only directions the loader passes are \<^verbatim>\<open>'OUTGOING'\<close> and
  \<^verbatim>\<open>'INCOMING'\<close>. The field \<^verbatim>\<open>drop\<close> is \<open>drop_flag\<close> here.
\<close>

datatype direction = OUTGOING | INCOMING

record parsed_session =
  timestamp :: string
  direction :: direction
  source_file :: string
  src_ip :: string
  dst_ip :: string
  session_id :: int
  seq :: int
  drop_flag :: bool
  drop_reason :: "string option"
  corrupted_stages :: "string list"
  skb_pointers :: skb_pointers
  total_rtt :: "real option"
  max_stage :: "string option"
  max_latency :: real
  path1_latencies :: latencies
  path2_latencies :: latencies
  session_line_src :: string
  session_line_dst :: string

record session = parsed_session +
  pair_name :: string

text \<open>
  The part of \<^verbatim>\<open>parse_session_block\<close> that follows the extraction of the fields from
  the text: it runs the loss detector on the pointers, the resolver on the two latency
  mappings and the corrupted stages, and builds the record. The total round-trip time
  is stored and handed to neither.
\<close>

definition session_record ::
  "string \<Rightarrow> direction \<Rightarrow> string \<Rightarrow> string \<Rightarrow> string \<Rightarrow> string \<Rightarrow> string \<Rightarrow> int \<Rightarrow> int \<Rightarrow>
   skb_pointers \<Rightarrow> latencies \<Rightarrow> latencies \<Rightarrow> real option \<Rightarrow> parsed_session" where
  "session_record ts dir file src dst line_src line_dst sid sq ptrs path1 path2 rtt =
     (case detect_packet_loss ptrs of (lost, reason, corrupted) \<Rightarrow>
      (case find_max_latency_excluding_corrupted path1 path2 corrupted of (stage, latency) \<Rightarrow>
        \<lparr> timestamp = ts, direction = dir, source_file = file, src_ip = src, dst_ip = dst,
          session_id = sid, seq = sq, drop_flag = lost, drop_reason = reason,
          corrupted_stages = corrupted, skb_pointers = ptrs, total_rtt = rtt,
          max_stage = stage, max_latency = latency, path1_latencies = path1,
          path2_latencies = path2, session_line_src = line_src, session_line_dst = line_dst \<rparr>))"

text \<open>\<^verbatim>\<open>session['pair_name'] = pair['pair_name']\<close> of \<^verbatim>\<open>load_and_parse_data\<close>.\<close>

definition with_pair_name :: "parsed_session \<Rightarrow> string \<Rightarrow> session" where
  "with_pair_name s name = parsed_session.extend s \<lparr> pair_name = name \<rparr>"

subsection \<open>Session Matcher\<close>

text \<open>
  \<^verbatim>\<open>match_session_pairs_for_all_nodes\<close>, on the list \<^verbatim>\<open>self.sessions\<close>. The
  \<^verbatim>\<open>defaultdict(list)\<close> of groups is an association list in insertion order; the lookup
  dictionary of the incoming sessions is a map, a later session replacing an earlier
  one with the same key; the loops are recursive functions that carry the lists they
  append to.
\<close>

type_synonym session_key = "int \<times> int"

definition key_of :: "session \<Rightarrow> session_key" where
  "key_of s = (session_id s, seq s)"

fun group_by_pair :: "session list \<Rightarrow> (string \<times> session list) list \<Rightarrow> (string \<times> session list) list" where
  "group_by_pair [] sessions_by_pair = sessions_by_pair"
| "group_by_pair (s # rest) sessions_by_pair =
     group_by_pair rest
       (AList.update (pair_name s)
          ((case map_of sessions_by_pair (pair_name s) of None \<Rightarrow> [] | Some members \<Rightarrow> members)
             @ [s])
          sessions_by_pair)"

fun build_incoming_lookup ::
  "session list \<Rightarrow> (session_key \<rightharpoonup> session) \<Rightarrow> (session_key \<rightharpoonup> session)" where
  "build_incoming_lookup [] incoming_lookup = incoming_lookup"
| "build_incoming_lookup (s # rest) incoming_lookup =
     build_incoming_lookup rest (incoming_lookup(key_of s \<mapsto> s))"

fun match_outgoing ::
  "session list \<Rightarrow> (session_key \<rightharpoonup> session) \<Rightarrow> (session \<times> session) list \<times> session list
     \<Rightarrow> (session \<times> session) list \<times> session list" where
  "match_outgoing [] incoming_lookup acc = acc"
| "match_outgoing (outgoing # rest) incoming_lookup (matched_pairs, outgoing_only) =
     (case incoming_lookup (key_of outgoing) of
        Some incoming \<Rightarrow>
          match_outgoing rest incoming_lookup (matched_pairs @ [(outgoing, incoming)], outgoing_only)
      | None \<Rightarrow>
          match_outgoing rest incoming_lookup (matched_pairs, outgoing_only @ [outgoing]))"

definition match_pair_group ::
  "session list \<Rightarrow> (session \<times> session) list \<times> session list \<times> session list" where
  "match_pair_group pair_sessions =
     (let outgoing_sessions = filter (\<lambda>s. direction s = OUTGOING) pair_sessions;
          incoming_sessions = filter (\<lambda>s. direction s = INCOMING) pair_sessions;
          incoming_lookup = build_incoming_lookup incoming_sessions Map.empty;
          (matched_pairs, outgoing_only) = match_outgoing outgoing_sessions incoming_lookup ([], []);
          matched_keys = set (map (\<lambda>(out, inc). key_of out) matched_pairs);
          incoming_only = filter (\<lambda>inc. key_of inc \<notin> matched_keys) incoming_sessions
      in (matched_pairs, outgoing_only, incoming_only))"

fun match_groups ::
  "(string \<times> session list) list \<Rightarrow> (session \<times> session) list \<times> session list \<times> session list
     \<Rightarrow> (session \<times> session) list \<times> session list \<times> session list" where
  "match_groups [] acc = acc"
| "match_groups ((name, pair_sessions) # rest) (all_matched_pairs, all_outgoing_only, all_incoming_only) =
     (case match_pair_group pair_sessions of
        (matched_pairs, outgoing_only, incoming_only) \<Rightarrow>
          match_groups rest (all_matched_pairs @ matched_pairs, all_outgoing_only @ outgoing_only,
            all_incoming_only @ incoming_only))"

definition match_session_pairs_for_all_nodes ::
  "session list \<Rightarrow> (session \<times> session) list \<times> session list \<times> session list" where
  "match_session_pairs_for_all_nodes sessions = match_groups (group_by_pair sessions []) ([], [], [])"

subsection \<open>Bidirectional Analyzer\<close>

text \<open>
  \<^verbatim>\<open>analyze_single_session_pair\<close>. The dictionary it builds is the record
  \<open>combined_analysis\<close>, whose fields carry the prefix \<open>ca_\<close> since several keys are also
  keys of a session. An f-string prints \<^verbatim>\<open>None\<close> as the text \<^verbatim>\<open>None\<close>. The test
  \<^verbatim>\<open>if outgoing_session['total_rtt'] and incoming_session['total_rtt']\<close> is false for
  \<^verbatim>\<open>None\<close> and for \<^verbatim>\<open>0.0\<close>.
\<close>

definition format_opt :: "string option \<Rightarrow> string" where
  "format_opt v = (case v of None \<Rightarrow> ''None'' | Some s \<Rightarrow> s)"

record combined_analysis =
  ca_session_key :: string
  ca_pair_name :: string
  ca_session_type :: string
  ca_outgoing :: session
  ca_incoming :: session
  ca_direction :: string
  ca_session_id :: int
  ca_seq :: int
  ca_drop :: bool
  ca_drop_details :: "string list"
  ca_outgoing_max_stage :: "string option"
  ca_outgoing_max_latency :: real
  ca_incoming_max_stage :: "string option"
  ca_incoming_max_latency :: real
  ca_max_stage :: "string option"
  ca_max_latency :: real
  ca_physical_network_delay :: "real option"
  ca_fping_processing_delay :: "real option"
  ca_outgoing_path1_latencies :: latencies
  ca_outgoing_path2_latencies :: latencies
  ca_incoming_path1_latencies :: latencies
  ca_incoming_path2_latencies :: latencies
  ca_outgoing_total_rtt :: "real option"
  ca_incoming_total_rtt :: "real option"
  ca_is_bidirectional :: bool
  ca_available_directions :: "string list"

definition analyze_single_session_pair :: "session \<Rightarrow> session \<Rightarrow> string \<Rightarrow> combined_analysis" where
  "analyze_single_session_pair outgoing_session incoming_session session_key =
     (let combined_analysis =
        \<lparr> ca_session_key = session_key,
          ca_pair_name = pair_name outgoing_session,
          ca_session_type = ''bidirectional'',
          ca_outgoing = outgoing_session,
          ca_incoming = incoming_session,
          ca_direction = src_ip outgoing_session @ ''->'' @ dst_ip outgoing_session,
          ca_session_id = session_id outgoing_session,
          ca_seq = seq outgoing_session,
          ca_drop = (drop_flag outgoing_session \<or> drop_flag incoming_session),
          ca_drop_details = [],
          ca_outgoing_max_stage = max_stage outgoing_session,
          ca_outgoing_max_latency = max_latency outgoing_session,
          ca_incoming_max_stage = max_stage incoming_session,
          ca_incoming_max_latency = max_latency incoming_session,
          ca_max_stage = None,
          ca_max_latency = 0,
          ca_physical_network_delay = None,
          ca_fping_processing_delay = None,
          ca_outgoing_path1_latencies = path1_latencies outgoing_session,
          ca_outgoing_path2_latencies = path2_latencies outgoing_session,
          ca_incoming_path1_latencies = path1_latencies incoming_session,
          ca_incoming_path2_latencies = path2_latencies incoming_session,
          ca_outgoing_total_rtt = total_rtt outgoing_session,
          ca_incoming_total_rtt = total_rtt incoming_session,
          ca_is_bidirectional = True,
          ca_available_directions = [''OUTGOING'', ''INCOMING''] \<rparr>;
        combined_analysis =
          (if drop_flag outgoing_session
             then combined_analysis\<lparr> ca_drop_details := ca_drop_details combined_analysis
                    @ [''OUTGOING_'' @ format_opt (drop_reason outgoing_session)] \<rparr>
           else combined_analysis);
        combined_analysis =
          (if drop_flag incoming_session
             then combined_analysis\<lparr> ca_drop_details := ca_drop_details combined_analysis
                    @ [''INCOMING_'' @ format_opt (drop_reason incoming_session)] \<rparr>
           else combined_analysis);
        combined_analysis =
          (if max_latency outgoing_session \<ge> max_latency incoming_session
             then combined_analysis\<lparr>
                    ca_max_stage := Some (''OUTGOING_'' @ format_opt (max_stage outgoing_session)),
                    ca_max_latency := max_latency outgoing_session \<rparr>
           else combined_analysis\<lparr>
                    ca_max_stage := Some (''INCOMING_'' @ format_opt (max_stage incoming_session)),
                    ca_max_latency := max_latency incoming_session \<rparr>);
        combined_analysis =
          (case (total_rtt outgoing_session, total_rtt incoming_session) of
             (Some outgoing_rtt, Some incoming_rtt) \<Rightarrow>
               if outgoing_rtt \<noteq> 0 \<and> incoming_rtt \<noteq> 0
                 then combined_analysis\<lparr> ca_physical_network_delay :=
                        Some (\<bar>outgoing_rtt - incoming_rtt\<bar> / 2) \<rparr>
               else combined_analysis
           | _ \<Rightarrow> combined_analysis)
      in combined_analysis\<lparr> ca_fping_processing_delay := Some 50 \<rparr>)"

subsection \<open>Sample records\<close>

text \<open>
  A session as the parser and the loader produce it, for a block with no pointer
  section and no path-2 section: the record of the given direction, node pair, session
  id, sequence number, path-1 latencies and total round-trip time.
\<close>

definition example_record ::
  "direction \<Rightarrow> string \<Rightarrow> int \<Rightarrow> int \<Rightarrow> latencies \<Rightarrow> real option \<Rightarrow> session" where
  "example_record dir name sid sq path1 rtt =
     with_pair_name
       (session_record ''2025-01-01 00:00:00.000001'' dir ''trace.log'' ''10.0.0.1'' ''10.0.0.2''
          ''10.0.0.1'' ''10.0.0.2'' sid sq Map.empty path1 [] rtt)
       name"

section \<open>Auxiliary facts\<close>

subsection \<open>The resolver as a scan of its candidates\<close>

lemma first_max_append: "first_max (xs @ ys) acc = first_max ys (first_max xs acc)"
  by (induction xs acc rule: first_max.induct) auto

lemma first_max_ge: "snd acc \<le> snd (first_max cs acc)"
  by (induction cs acc rule: first_max.induct) (auto intro: order_trans less_imp_le)

lemma scan_path1_first_max:
  "0 \<le> snd acc \<Longrightarrow> scan_path1 p1 c acc =
     first_max (map (\<lambda>(k, v). (''Path1_'' @ k, v)) (filter (\<lambda>(k, v). k \<notin> set c) p1)) acc"
  by (induction p1 c acc rule: scan_path1.induct) auto

lemma scan_path2_first_max:
  "0 \<le> snd acc \<Longrightarrow> scan_path2 p2 acc = first_max (map (\<lambda>(k, v). (''Path2_'' @ k, v)) p2) acc"
  by (induction p2 acc rule: scan_path2.induct) auto

lemma find_max_first_max:
  "find_max_latency_excluding_corrupted p1 p2 c = first_max (candidates p1 p2 c) (None, 0)"
proof -
  have "0 \<le> snd (first_max (map (\<lambda>(k, v). (''Path1_'' @ k, v))
                     (filter (\<lambda>(k, v). k \<notin> set c) p1)) (None, 0))"
    using first_max_ge [of "(None, 0)"] by simp
  then show ?thesis
    by (simp add: find_max_latency_excluding_corrupted_def candidates_def first_max_append
        scan_path1_first_max scan_path2_first_max)
qed

lemma first_max_upper: "(l, v) \<in> set cs \<Longrightarrow> v \<le> snd (first_max cs acc)"
proof (induction cs acc rule: first_max.induct)
  case (1 acc)
  then show ?case by simp
next
  case (2 l' v' cs ms ml)
  then show ?case
    using first_max_ge [of "(Some l', v')" cs] first_max_ge [of "(ms, ml)" cs]
    by (auto split: if_splits)
qed

text \<open>
  What a scan returns: either the accumulator it started from, no candidate exceeding
  it, or a candidate that exceeds the start, with strictly smaller candidates before
  it and none larger after it.
\<close>

lemma first_max_char:
  "first_max cs (ms, ml) = (r, v) \<Longrightarrow>
     (r = ms \<and> v = ml \<and> (\<forall>x \<in> set cs. snd x \<le> ml)) \<or>
     (\<exists>xs l ys. cs = xs @ (l, v) # ys \<and> r = Some l \<and> ml < v \<and>
        (\<forall>x \<in> set xs. snd x < v) \<and> (\<forall>y \<in> set ys. snd y \<le> v))"
proof (induction cs arbitrary: ms ml)
  case Nil
  then show ?case by simp
next
  case (Cons c cs)
  obtain l' v' where c: "c = (l', v')" by (cases c)
  show ?case
  proof (cases "v' > ml")
    case True
    with Cons.prems c have run: "first_max cs (Some l', v') = (r, v)" by simp
    from Cons.IH [OF run] show ?thesis
    proof
      assume "r = Some l' \<and> v = v' \<and> (\<forall>x \<in> set cs. snd x \<le> v')"
      then have "c # cs = [] @ (l', v) # cs \<and> r = Some l' \<and> ml < v \<and>
          (\<forall>x \<in> set []. snd x < v) \<and> (\<forall>y \<in> set cs. snd y \<le> v)"
        using True c by simp
      then show ?thesis by blast
    next
      assume "\<exists>xs l ys. cs = xs @ (l, v) # ys \<and> r = Some l \<and> v' < v \<and>
        (\<forall>x \<in> set xs. snd x < v) \<and> (\<forall>y \<in> set ys. snd y \<le> v)"
      then obtain xs l ys where d: "cs = xs @ (l, v) # ys" "r = Some l" "v' < v"
        "\<forall>x \<in> set xs. snd x < v" "\<forall>y \<in> set ys. snd y \<le> v" by blast
      have "c # cs = (c # xs) @ (l, v) # ys \<and> r = Some l \<and> ml < v \<and>
          (\<forall>x \<in> set (c # xs). snd x < v) \<and> (\<forall>y \<in> set ys. snd y \<le> v)"
        using d True c by auto
      then show ?thesis by blast
    qed
  next
    case False
    with Cons.prems c have run: "first_max cs (ms, ml) = (r, v)" by simp
    from Cons.IH [OF run] show ?thesis
    proof
      assume "r = ms \<and> v = ml \<and> (\<forall>x \<in> set cs. snd x \<le> ml)"
      then show ?thesis using False c by auto
    next
      assume "\<exists>xs l ys. cs = xs @ (l, v) # ys \<and> r = Some l \<and> ml < v \<and>
        (\<forall>x \<in> set xs. snd x < v) \<and> (\<forall>y \<in> set ys. snd y \<le> v)"
      then obtain xs l ys where d: "cs = xs @ (l, v) # ys" "r = Some l" "ml < v"
        "\<forall>x \<in> set xs. snd x < v" "\<forall>y \<in> set ys. snd y \<le> v" by blast
      have "c # cs = (c # xs) @ (l, v) # ys \<and> r = Some l \<and> ml < v \<and>
          (\<forall>x \<in> set (c # xs). snd x < v) \<and> (\<forall>y \<in> set ys. snd y \<le> v)"
        using d False c by auto
      then show ?thesis by blast
    qed
  qed
qed

lemma find_max_char:
  assumes "find_max_latency_excluding_corrupted p1 p2 c = (r, v)"
  shows "(r = None \<and> v = 0 \<and> (\<forall>x \<in> set (candidates p1 p2 c). snd x \<le> 0)) \<or>
     (\<exists>xs l ys. candidates p1 p2 c = xs @ (l, v) # ys \<and> r = Some l \<and> 0 < v \<and>
        (\<forall>x \<in> set xs. snd x < v) \<and> (\<forall>y \<in> set ys. snd y \<le> v))"
  using first_max_char [of "candidates p1 p2 c" None 0 r v] assms
  by (simp add: find_max_first_max)

lemma find_max_Some:
  assumes "find_max_latency_excluding_corrupted p1 p2 c = (r, m)" and "r \<noteq> None"
  shows "\<exists>l. r = Some l \<and> (l, m) \<in> set (candidates p1 p2 c) \<and> 0 < m"
proof -
  from find_max_char [OF assms(1)] assms(2)
  obtain xs l ys where "candidates p1 p2 c = xs @ (l, m) # ys" "r = Some l" "0 < m"
    by blast
  then show ?thesis by simp
qed

lemma find_max_None:
  assumes "find_max_latency_excluding_corrupted p1 p2 c = (None, m)"
  shows "m = 0 \<and> (\<forall>x \<in> set (candidates p1 p2 c). snd x \<le> 0)"
  using find_max_char [OF assms] by auto

lemma find_max_upper:
  assumes "find_max_latency_excluding_corrupted p1 p2 c = (r, m)"
    and "(l, v) \<in> set (candidates p1 p2 c)"
  shows "v \<le> m"
  using first_max_upper [OF assms(2), of "(None, 0)"] assms(1)
  by (simp add: find_max_first_max)

lemma path1_label_in_candidates:
  assumes "(''Path1_'' @ k, v) \<in> set (candidates p1 p2 c)"
  shows "(k, v) \<in> set p1 \<and> k \<notin> set c"
  using assms by (auto simp: candidates_def)

subsection \<open>The sample records\<close>

lemma example_record_fields:
  "direction (example_record d n i q p r) = d"
  "pair_name (example_record d n i q p r) = n"
  "session_id (example_record d n i q p r) = i"
  "seq (example_record d n i q p r) = q"
  "total_rtt (example_record d n i q p r) = r"
  "drop_flag (example_record d n i q p r) = False"
  "drop_reason (example_record d n i q p r) = None"
  "max_stage (example_record d n i q p r) = fst (find_max_latency_excluding_corrupted p [] [])"
  "max_latency (example_record d n i q p r) = snd (find_max_latency_excluding_corrupted p [] [])"
  by (simp_all add: example_record_def with_pair_name_def session_record_def
      detect_packet_loss_def parsed_session.defs session.defs split: prod.splits)

subsection \<open>The latency section loop\<close>

lemma update_entries: "set (AList.update k v al) \<subseteq> insert (k, v) (set al)"
  by (induction al) auto

lemma path_latencies_loop_step:
  assumes "path_latencies_loop (line # rest) sec ins lat = Inr res"
  shows "(path_latencies_loop rest sec True lat = Inr res \<and>
            section_body (line # rest) sec ins = section_body rest sec True) \<or>
     res = lat \<or>
     (path_latencies_loop rest sec ins lat = Inr res \<and>
        set (section_body rest sec ins) \<subseteq> set (section_body (line # rest) sec ins)) \<or>
     (\<exists>a b v y. re_search latency_pattern line = Some [a, b, v] \<and> v \<noteq> ''N/A'' \<and>
        py_float v = Inr y \<and>
        section_body (line # rest) sec ins = line # section_body rest sec ins \<and>
        path_latencies_loop rest sec ins (AList.update (a @ ''->'' @ b) y lat) = Inr res)"
proof (cases "prefix sec (strip line)")
  case True
  with assms show ?thesis by simp
next
  case no_header: False
  show ?thesis
  proof (cases "(prefix ''Path'' (strip line) \<or> prefix ''Total'' (strip line)) \<and> ins")
    case True
    with assms no_header show ?thesis by simp
  next
    case no_break: False
    show ?thesis
    proof (cases "ins \<and> strip line \<noteq> []")
      case False
      with assms no_header no_break show ?thesis by auto
    next
      case body: True
      from no_header no_break body
      have sb: "section_body (line # rest) sec ins = line # section_body rest sec ins"
        by simp
      show ?thesis
      proof (cases "\<exists>a b v. re_search latency_pattern line = Some [a, b, v]")
        case False
        then have "(case re_search latency_pattern line of
              Some [a, b, v] \<Rightarrow> f a b v | _ \<Rightarrow> g) = g" for f and g :: "error + latencies"
          by (simp split: option.splits list.splits)
        with assms no_header no_break body
        have "path_latencies_loop rest sec ins lat = Inr res" by simp
        with sb show ?thesis by auto
      next
        case True
        then obtain a b v where m: "re_search latency_pattern line = Some [a, b, v]" by blast
        show ?thesis
        proof (cases "v = ''N/A''")
          case True
          with assms no_header no_break body m
          have "path_latencies_loop rest sec ins lat = Inr res" by simp
          with sb show ?thesis by auto
        next
          case numeric: False
          show ?thesis
          proof (cases "py_float v")
            case (Inl e)
            with assms no_header no_break body m numeric show ?thesis by simp
          next
            case (Inr y)
            with assms no_header no_break body m numeric
            have "path_latencies_loop rest sec ins (AList.update (a @ ''->'' @ b) y lat) = Inr res"
              by simp
            with m numeric Inr sb show ?thesis by blast
          qed
        qed
      qed
    qed
  qed
qed

text \<open>
  Every entry of the result was in the dictionary at the start or comes from a line of
  the section's body with a number.
\<close>

lemma path_latencies_loop_entries:
  "path_latencies_loop lines sec ins lat = Inr res \<Longrightarrow> (k, x) \<in> set res \<Longrightarrow>
     (k, x) \<in> set lat \<or>
     (\<exists>line \<in> set (section_body lines sec ins). \<exists>a b v.
        re_search latency_pattern line = Some [a, b, v] \<and>
        k = a @ ''->'' @ b \<and> v \<noteq> ''N/A'' \<and> py_float v = Inr x)"
proof (induction lines arbitrary: ins lat)
  case Nil
  then show ?case by simp
next
  case (Cons line rest)
  let ?from = "\<lambda>ls. \<exists>l \<in> set ls. \<exists>a b v. re_search latency_pattern l = Some [a, b, v] \<and>
        k = a @ ''->'' @ b \<and> v \<noteq> ''N/A'' \<and> py_float v = Inr x"
  from path_latencies_loop_step [OF Cons.prems(1)]
  consider (header) "path_latencies_loop rest sec True lat = Inr res"
        "section_body (line # rest) sec ins = section_body rest sec True"
    | (stop) "res = lat"
    | (skip) "path_latencies_loop rest sec ins lat = Inr res"
        "set (section_body rest sec ins) \<subseteq> set (section_body (line # rest) sec ins)"
    | (store) a b v y where "re_search latency_pattern line = Some [a, b, v]" "v \<noteq> ''N/A''"
        "py_float v = Inr y"
        "section_body (line # rest) sec ins = line # section_body rest sec ins"
        "path_latencies_loop rest sec ins (AList.update (a @ ''->'' @ b) y lat) = Inr res"
    by blast
  then show ?case
  proof cases
    case header
    from Cons.IH [OF header(1) Cons.prems(2)]
    have "(k, x) \<in> set lat \<or> ?from (section_body rest sec True)" .
    then show ?thesis unfolding header(2) .
  next
    case stop
    with Cons.prems(2) show ?thesis by simp
  next
    case skip
    from Cons.IH [OF skip(1) Cons.prems(2)]
    have "(k, x) \<in> set lat \<or> ?from (section_body rest sec ins)" .
    with skip(2) show ?thesis by blast
  next
    case store
    from Cons.IH [OF store(5) Cons.prems(2)]
    have "(k, x) \<in> set (AList.update (a @ ''->'' @ b) y lat) \<or> ?from (section_body rest sec ins)" .
    then show ?thesis
    proof
      assume "(k, x) \<in> set (AList.update (a @ ''->'' @ b) y lat)"
      with update_entries have "(k, x) = (a @ ''->'' @ b, y) \<or> (k, x) \<in> set lat" by fastforce
      with store(1-3) show ?thesis unfolding store(4) by auto
    next
      assume "?from (section_body rest sec ins)"
      then show ?thesis unfolding store(4) by auto
    qed
  qed
qed

subsection \<open>The groups of the matcher\<close>

lemma update_group_mset:
  "mset (concat (map snd (AList.update k ((case map_of d k of None \<Rightarrow> [] | Some g \<Rightarrow> g) @ [s]) d)))
     = mset (concat (map snd d)) + {#s#}"
  by (induction d) auto

lemma update_group_names:
  assumes "\<forall>(p, g) \<in> set d. \<forall>x \<in> set g. pair_name x = p"
  shows "\<forall>(p, g) \<in> set (AList.update (pair_name s)
            ((case map_of d (pair_name s) of None \<Rightarrow> [] | Some g \<Rightarrow> g) @ [s]) d).
          \<forall>x \<in> set g. pair_name x = p"
  using assms by (induction d) (auto split: if_splits)

lemma group_by_pair_mset:
  "mset (concat (map snd (group_by_pair ss d))) = mset (concat (map snd d)) + mset ss"
  by (induction ss arbitrary: d) (simp_all add: update_group_mset)

lemma group_by_pair_names:
  "\<forall>(p, g) \<in> set d. \<forall>x \<in> set g. pair_name x = p \<Longrightarrow>
   \<forall>(p, g) \<in> set (group_by_pair ss d). \<forall>x \<in> set g. pair_name x = p"
proof (induction ss arbitrary: d)
  case Nil
  then show ?case by simp
next
  case (Cons s ss)
  show ?case
    unfolding group_by_pair.simps
    by (rule Cons.IH) (rule update_group_names [OF Cons.prems])
qed

subsection \<open>The lookup dictionary and the matching loop\<close>

lemma build_incoming_lookup_Some:
  "build_incoming_lookup ss lk k = Some i \<Longrightarrow> lk k = Some i \<or> (i \<in> set ss \<and> key_of i = k)"
  by (induction ss arbitrary: lk) (fastforce split: if_splits)+

lemma build_incoming_lookup_other:
  "k \<notin> key_of ` set ss \<Longrightarrow> build_incoming_lookup ss lk k = lk k"
  by (induction ss arbitrary: lk) auto

lemma build_incoming_lookup_distinct:
  "distinct (map key_of ss) \<Longrightarrow> i \<in> set ss \<Longrightarrow> build_incoming_lookup ss lk (key_of i) = Some i"
proof (induction ss arbitrary: lk)
  case Nil
  then show ?case by simp
next
  case (Cons s ss)
  show ?case
  proof (cases "i = s")
    case True
    with Cons.prems have "key_of i \<notin> key_of ` set ss" by auto
    then show ?thesis using True by (simp add: build_incoming_lookup_other)
  next
    case False
    with Cons show ?thesis by auto
  qed
qed

lemma match_outgoing_char:
  "match_outgoing os lk (m, oo) =
     (m @ map (\<lambda>out. (out, the (lk (key_of out)))) (filter (\<lambda>out. lk (key_of out) \<noteq> None) os),
      oo @ filter (\<lambda>out. lk (key_of out) = None) os)"
  by (induction os arbitrary: m oo) (auto split: option.splits)

lemma match_groups_char:
  "match_groups gs (am, ao, ai) =
     (am @ concat (map (\<lambda>(n, ps). fst (match_pair_group ps)) gs),
      ao @ concat (map (\<lambda>(n, ps). fst (snd (match_pair_group ps))) gs),
      ai @ concat (map (\<lambda>(n, ps). snd (snd (match_pair_group ps))) gs))"
  by (induction gs arbitrary: am ao ai) (auto split: prod.splits)

lemma match_pair_group_pairs:
  assumes "(out, inc) \<in> set (fst (match_pair_group ps))"
  shows "out \<in> set ps \<and> inc \<in> set ps \<and> direction out = OUTGOING \<and> direction inc = INCOMING \<and>
         key_of out = key_of inc"
proof -
  let ?I = "filter (\<lambda>s. direction s = INCOMING) ps"
  let ?lk = "build_incoming_lookup ?I Map.empty"
  from assms have "out \<in> set ps \<and> direction out = OUTGOING \<and> ?lk (key_of out) \<noteq> None \<and>
      inc = the (?lk (key_of out))"
    by (auto simp: match_pair_group_def Let_def match_outgoing_char split: prod.splits)
  then obtain i where o: "out \<in> set ps" "direction out = OUTGOING" and i: "?lk (key_of out) = Some i" "inc = i"
    by auto
  from build_incoming_lookup_Some [OF i(1)] have "i \<in> set ?I \<and> key_of i = key_of out" by simp
  with o i show ?thesis by simp
qed

lemma match_groups_pairs:
  assumes "(out, inc) \<in> set (fst (match_groups gs ([], [], [])))"
  shows "\<exists>n ps. (n, ps) \<in> set gs \<and> (out, inc) \<in> set (fst (match_pair_group ps))"
  using assms by (auto simp: match_groups_char)

subsection \<open>The partition of one group\<close>

lemma distinct_direction_keys:
  assumes "distinct (map (\<lambda>s. (direction s, key_of s)) ps)"
  shows "distinct (map key_of (filter (\<lambda>s. direction s = d) ps))"
proof -
  have "distinct (map (\<lambda>s. (direction s, key_of s)) (filter (\<lambda>s. direction s = d) ps))"
    using assms by (rule distinct_map_filter)
  moreover have "map (\<lambda>s. (direction s, key_of s)) (filter (\<lambda>s. direction s = d) ps)
      = map (\<lambda>k. (d, k)) (map key_of (filter (\<lambda>s. direction s = d) ps))"
    by (induction ps) auto
  ultimately have "distinct (map (\<lambda>k. (d, k)) (map key_of (filter (\<lambda>s. direction s = d) ps)))"
    by simp
  then show ?thesis by (metis distinct_map)
qed

lemma split_by_direction:
  "mset ps = mset (filter (\<lambda>s. direction s = OUTGOING) ps) + mset (filter (\<lambda>s. direction s = INCOMING) ps)"
proof (induction ps)
  case Nil
  then show ?case by simp
next
  case (Cons s ps)
  then show ?case by (cases "direction s") simp_all
qed

lemma match_pair_group_partition:
  assumes d: "distinct (map (\<lambda>s. (direction s, key_of s)) ps)"
    and r: "match_pair_group ps = (m, oo, io)"
  shows "mset (map fst m) + mset (map snd m) + mset oo + mset io = mset ps"
proof -
  define outs where "outs = filter (\<lambda>s. direction s = OUTGOING) ps"
  define ins where "ins = filter (\<lambda>s. direction s = INCOMING) ps"
  define lk where "lk = build_incoming_lookup ins Map.empty"
  define mo where "mo = filter (\<lambda>out. lk (key_of out) \<noteq> None) outs"
  have d_out: "distinct (map key_of outs)" and d_in: "distinct (map key_of ins)"
    unfolding outs_def ins_def using d by (rule distinct_direction_keys)+
  have m: "m = map (\<lambda>out. (out, the (lk (key_of out)))) mo"
    and oo: "oo = filter (\<lambda>out. lk (key_of out) = None) outs"
    and io: "io = filter (\<lambda>inc. key_of inc \<notin> key_of ` set mo) ins"
    using r unfolding match_pair_group_def Let_def outs_def [symmetric] ins_def [symmetric]
      lk_def [symmetric] match_outgoing_char mo_def
    by (auto simp: image_image split_beta comp_def)
  have lk_Some: "i \<in> set ins \<and> key_of i = k" if "lk k = Some i" for k i
    using build_incoming_lookup_Some [of ins Map.empty k i] that by (simp add: lk_def)
  have lk_I: "lk (key_of i) = Some i" if "i \<in> set ins" for i
    unfolding lk_def using d_in that by (rule build_incoming_lookup_distinct)
  have fst_m: "map fst m = mo" by (simp add: m comp_def)
  have part_out: "mset (map fst m) + mset oo = mset outs"
    unfolding fst_m oo mo_def
    using multiset_partition [of "mset outs" "\<lambda>out. lk (key_of out) \<noteq> None"] by simp
  have key_snd: "map key_of (map snd m) = map key_of mo"
    unfolding m mo_def using lk_Some by (auto simp: comp_def)
  have "distinct (map key_of mo)" unfolding mo_def using d_out by (rule distinct_map_filter)
  then have d1: "distinct (map snd m)" using key_snd by (metis distinct_map)
  have d2: "distinct (filter (\<lambda>inc. key_of inc \<in> key_of ` set mo) ins)"
    using d_in by (simp add: distinct_map)
  have s: "set (map snd m) = set (filter (\<lambda>inc. key_of inc \<in> key_of ` set mo) ins)"
  proof (intro equalityI subsetI)
    fix i assume "i \<in> set (map snd m)"
    then obtain out where o: "out \<in> set mo" "i = the (lk (key_of out))" by (auto simp: m)
    then obtain j where j: "lk (key_of out) = Some j" by (auto simp: mo_def)
    with o lk_Some [OF j] show "i \<in> set (filter (\<lambda>inc. key_of inc \<in> key_of ` set mo) ins)"
      by (auto simp: image_iff intro!: bexI [of _ out])
  next
    fix i assume "i \<in> set (filter (\<lambda>inc. key_of inc \<in> key_of ` set mo) ins)"
    then obtain out where o: "i \<in> set ins" "out \<in> set mo" "key_of i = key_of out" by auto
    with lk_I [of i] have "the (lk (key_of out)) = i" by simp
    with o show "i \<in> set (map snd m)" by (force simp: m)
  qed
  from d1 d2 s have "mset (map snd m) = mset (filter (\<lambda>inc. key_of inc \<in> key_of ` set mo) ins)"
    using set_eq_iff_mset_eq_distinct [of "map snd m" "filter (\<lambda>inc. key_of inc \<in> key_of ` set mo) ins"]
    by blast
  then have part_in: "mset (map snd m) + mset io = mset ins"
    unfolding io using multiset_partition [of "mset ins" "\<lambda>inc. key_of inc \<in> key_of ` set mo"] by simp
  have "mset (map fst m) + mset (map snd m) + mset oo + mset io
      = (mset (map fst m) + mset oo) + (mset (map snd m) + mset io)"
    by (simp only: ac_simps)
  also have "\<dots> = mset outs + mset ins" by (simp only: part_out part_in)
  also have "\<dots> = mset ps" unfolding outs_def ins_def by (rule split_by_direction [symmetric])
  finally show ?thesis .
qed

lemma distinct_map_concat_member:
  "distinct (map f (concat gss)) \<Longrightarrow> g \<in> set gss \<Longrightarrow> distinct (map f g)"
  by (induction gss) auto

lemma group_keys_distinct:
  assumes "distinct (map (\<lambda>s. (pair_name s, direction s, key_of s)) g)"
    and "\<forall>x \<in> set g. pair_name x = p"
  shows "distinct (map (\<lambda>s. (direction s, key_of s)) g)"
proof -
  have "map (\<lambda>s. (pair_name s, direction s, key_of s)) g
      = map (\<lambda>k. (p, k)) (map (\<lambda>s. (direction s, key_of s)) g)"
    using assms(2) by (induction g) auto
  with assms(1) have "distinct (map (\<lambda>k. (p, k)) (map (\<lambda>s. (direction s, key_of s)) g))"
    by simp
  then show ?thesis by (metis distinct_map)
qed

lemma match_groups_partition:
  assumes "\<forall>(n, ps) \<in> set gs. distinct (map (\<lambda>s. (direction s, key_of s)) ps)"
    and "match_groups gs (am, ao, ai) = (m, oo, io)"
  shows "mset (map fst m) + mset (map snd m) + mset oo + mset io
       = mset (map fst am) + mset (map snd am) + mset ao + mset ai + mset (concat (map snd gs))"
  using assms
proof (induction gs arbitrary: am ao ai)
  case Nil
  then show ?case by simp
next
  case (Cons g gs)
  obtain n ps where g: "g = (n, ps)" by (cases g)
  obtain gm go gi where r: "match_pair_group ps = (gm, go, gi)" by (cases "match_pair_group ps")
  from Cons.prems(1) g have d: "distinct (map (\<lambda>s. (direction s, key_of s)) ps)" by simp
  have part: "mset (map fst gm) + mset (map snd gm) + mset go + mset gi = mset ps"
    using d r by (rule match_pair_group_partition)
  from Cons.prems(2) g r have run: "match_groups gs (am @ gm, ao @ go, ai @ gi) = (m, oo, io)"
    by simp
  from Cons.prems(1) have rest: "\<forall>(n, ps) \<in> set gs. distinct (map (\<lambda>s. (direction s, key_of s)) ps)"
    by simp
  have "mset (map fst m) + mset (map snd m) + mset oo + mset io
      = mset (map fst (am @ gm)) + mset (map snd (am @ gm)) + mset (ao @ go) + mset (ai @ gi)
        + mset (concat (map snd gs))"
    using rest run by (rule Cons.IH)
  also have "\<dots> = mset (map fst am) + mset (map snd am) + mset ao + mset ai
        + (mset (map fst gm) + mset (map snd gm) + mset go + mset gi) + mset (concat (map snd gs))"
    by (simp add: ac_simps)
  also have "\<dots> = mset (map fst am) + mset (map snd am) + mset ao + mset ai
        + mset (concat (map snd (g # gs)))"
    unfolding part by (simp add: g)
  finally show ?case .
qed

section \<open>The claims\<close>

subsection \<open>Loss Detector\<close>

text \<open>
  C1. The Loss Detector is exactly the reference decision function: on every
  stage-pointer mapping, with or without stages 0, 1 and 2, its verdict (lost flag,
  reason, set of corrupted stages) is the one the three prioritised rules give, and
  a mapping that misses one of the three stages is judged not lost, with no reason
  and no corrupted stage.
\<close>

theorem detect_packet_loss_is_reference:
  "as_verdict (detect_packet_loss ptrs) = loss_reference ptrs"
  by (auto simp: detect_packet_loss_def loss_reference_def as_verdict_def dom_def
           split: option.splits)

text \<open>
  C9, as amended. When stages 0, 1 and 2 are all present and the pointers of stages
  0 and 1 differ, the verdict is lost, with the stage-0-to-1 reason and the corrupted
  stages \<open>0->1\<close>, whatever the pointer of stage 2 is.
\<close>

theorem detect_packet_loss_stage01:
  assumes "ptrs 0 = Some p0" and "ptrs 1 = Some p1" and "ptrs 2 = Some p2"
    and "p0 \<noteq> p1"
  shows "detect_packet_loss ptrs = (True, Some ''Stage_0_to_1_SKB_Mismatch'', [''0->1''])"
  using assms by (simp add: detect_packet_loss_def)

theorem detect_packet_loss_stage01_witness:
  "detect_packet_loss [0 \<mapsto> ''0xAA'', 1 \<mapsto> ''0xBB'', 2 \<mapsto> ''0xBB'']
     = (True, Some ''Stage_0_to_1_SKB_Mismatch'', [''0->1''])"
  using detect_packet_loss_stage01 [of "[0 \<mapsto> ''0xAA'', 1 \<mapsto> ''0xBB'', 2 \<mapsto> ''0xBB'']"
      "''0xAA''" "''0xBB''" "''0xBB''"]
  by simp

text \<open>
  C9 as it is written also covers a mapping that holds stages 0 and 1 with different
  pointers and has no stage 2; there the detector reports no loss.
\<close>

theorem detect_packet_loss_stage01_counterexample:
  "[0 \<mapsto> ''0xAA'', 1 \<mapsto> ''0xBB''] (0::int) \<noteq> [0 \<mapsto> ''0xAA'', 1 \<mapsto> ''0xBB''] 1 \<and>
   detect_packet_loss [0 \<mapsto> ''0xAA'', 1 \<mapsto> ''0xBB''] = (False, None, [])"
  by (simp add: detect_packet_loss_def)

subsection \<open>Stage-Latency Resolver\<close>

text \<open>
  C2. Whatever the two latency mappings and the corrupted stages are: when the
  resolver returns a path-1 label, that label is not corrupted and is an entry of
  path 1 with the returned latency; every path-2 entry is compared, so the returned
  latency is at least each path-2 latency; and a positive path-2 entry that exceeds
  every path-1 entry that is not corrupted makes the resolver return a path-2 label,
  also when the label of that path-2 entry is in the corrupted set.
\<close>

theorem resolver_skips_corrupted_path1:
  "(\<forall>k. fst (find_max_latency_excluding_corrupted p1 p2 c) = Some (''Path1_'' @ k)
        \<longrightarrow> k \<notin> set c \<and> (k, snd (find_max_latency_excluding_corrupted p1 p2 c)) \<in> set p1) \<and>
   (\<forall>k v. (k, v) \<in> set p2 \<longrightarrow> v \<le> snd (find_max_latency_excluding_corrupted p1 p2 c)) \<and>
   (\<forall>k v. (k, v) \<in> set p2 \<and> 0 < v \<and> (\<forall>k' v'. (k', v') \<in> set p1 \<and> k' \<notin> set c \<longrightarrow> v' < v)
        \<longrightarrow> (\<exists>k2. fst (find_max_latency_excluding_corrupted p1 p2 c) = Some (''Path2_'' @ k2)))"
proof -
  obtain r m where res: "find_max_latency_excluding_corrupted p1 p2 c = (r, m)"
    by (cases "find_max_latency_excluding_corrupted p1 p2 c")
  have a: "k \<notin> set c \<and> (k, m) \<in> set p1" if "r = Some (''Path1_'' @ k)" for k
  proof -
    from find_max_Some [OF res] that have "(''Path1_'' @ k, m) \<in> set (candidates p1 p2 c)"
      by auto
    then show ?thesis using path1_label_in_candidates by blast
  qed
  have b: "v \<le> m" if "(k, v) \<in> set p2" for k v
  proof -
    from that have "(''Path2_'' @ k, v) \<in> set (candidates p1 p2 c)"
      by (force simp: candidates_def)
    with res show ?thesis by (rule find_max_upper)
  qed
  have c: "\<exists>k2. r = Some (''Path2_'' @ k2)"
    if "(k, v) \<in> set p2" "0 < v" "\<forall>k' v'. (k', v') \<in> set p1 \<and> k' \<notin> set c \<longrightarrow> v' < v" for k v
  proof -
    from b that have "0 < m" "v \<le> m" by fastforce+
    have "r \<noteq> None"
    proof
      assume "r = None"
      with find_max_None res have "m = 0" by blast
      with \<open>0 < m\<close> show False by simp
    qed
    with find_max_Some [OF res] obtain l where l: "r = Some l" "(l, m) \<in> set (candidates p1 p2 c)"
      by blast
    have "\<not> (\<exists>k'. (k', m) \<in> set p1 \<and> k' \<notin> set c)"
      using that(3) \<open>v \<le> m\<close> by fastforce
    with l(2) obtain k2 where "l = ''Path2_'' @ k2" by (auto simp: candidates_def)
    with l show ?thesis by blast
  qed
  show ?thesis unfolding res fst_conv snd_conv using a b c by blast
qed

theorem resolver_skips_corrupted_path1_witness:
  "find_max_latency_excluding_corrupted [(''1->2'', 900), (''0->1'', 3)] [(''1->2'', 500)] [''1->2'']
     = (Some ''Path2_1->2'', 500) \<and>
   (''1->2'', 500) \<in> set [(''1->2'', 500::real)] \<and> ''1->2'' \<in> set [''1->2''] \<and>
   (\<exists>k2. fst (find_max_latency_excluding_corrupted [(''1->2'', 900), (''0->1'', 3)]
       [(''1->2'', 500)] [''1->2'']) = Some (''Path2_'' @ k2))"
proof -
  have e: "find_max_latency_excluding_corrupted [(''1->2'', 900), (''0->1'', 3)] [(''1->2'', 500)] [''1->2'']
     = (Some ''Path2_1->2'', 500)"
    by (simp add: find_max_latency_excluding_corrupted_def)
  have h: "(''1->2'', 500) \<in> set [(''1->2'', 500::real)] \<and> 0 < (500::real) \<and>
      (\<forall>k' v'. (k', v') \<in> set [(''1->2'', 900::real), (''0->1'', 3)] \<and> k' \<notin> set [''1->2'']
          \<longrightarrow> v' < 500)"
    by auto
  from resolver_skips_corrupted_path1 [of "[(''1->2'', 900), (''0->1'', 3)]" "[(''1->2'', 500)]"
      "[''1->2'']"] h
  have "\<exists>k2. fst (find_max_latency_excluding_corrupted [(''1->2'', 900), (''0->1'', 3)]
       [(''1->2'', 500)] [''1->2'']) = Some (''Path2_'' @ k2)"
    by blast
  with e show ?thesis by simp
qed

text \<open>
  C7, as amended. The resolver returns a null stage exactly when no candidate (a
  path-1 entry that is not corrupted, or a path-2 entry) has a positive latency, and
  then the latency it returns is 0; whenever some candidate has a positive latency,
  it returns the largest latency of the candidates with the label of a candidate that
  has it, so with a non-null stage.
\<close>

theorem resolver_null_iff_no_positive_candidate:
  "(fst (find_max_latency_excluding_corrupted p1 p2 c) = None
      \<longleftrightarrow> \<not> (\<exists>l v. (l, v) \<in> set (candidates p1 p2 c) \<and> 0 < v)) \<and>
   (fst (find_max_latency_excluding_corrupted p1 p2 c) = None
      \<longrightarrow> snd (find_max_latency_excluding_corrupted p1 p2 c) = 0) \<and>
   ((\<exists>l v. (l, v) \<in> set (candidates p1 p2 c) \<and> 0 < v) \<longrightarrow>
      (\<exists>l. find_max_latency_excluding_corrupted p1 p2 c
             = (Some l, Max (snd ` set (candidates p1 p2 c))) \<and>
           (l, Max (snd ` set (candidates p1 p2 c))) \<in> set (candidates p1 p2 c)))"
proof -
  obtain r m where res: "find_max_latency_excluding_corrupted p1 p2 c = (r, m)"
    by (cases "find_max_latency_excluding_corrupted p1 p2 c")
  let ?cs = "candidates p1 p2 c"
  have upper: "v \<le> m" if "(l, v) \<in> set ?cs" for l v
    using find_max_upper [OF res that] .
  have none_iff: "r = None \<longleftrightarrow> \<not> (\<exists>l v. (l, v) \<in> set ?cs \<and> 0 < v)"
  proof
    assume "r = None"
    with find_max_None res have "\<forall>x \<in> set ?cs. snd x \<le> 0" by blast
    then show "\<not> (\<exists>l v. (l, v) \<in> set ?cs \<and> 0 < v)" by fastforce
  next
    assume no: "\<not> (\<exists>l v. (l, v) \<in> set ?cs \<and> 0 < v)"
    show "r = None"
    proof (rule ccontr)
      assume "r \<noteq> None"
      with find_max_Some [OF res] obtain l where "(l, m) \<in> set ?cs" "0 < m" by blast
      with no show False by blast
    qed
  qed
  have zero: "m = 0" if "r = None" using find_max_None res that by blast
  have some: "\<exists>l. (r, m) = (Some l, Max (snd ` set ?cs)) \<and> (l, Max (snd ` set ?cs)) \<in> set ?cs"
    if "\<exists>l v. (l, v) \<in> set ?cs \<and> 0 < v"
  proof -
    from that none_iff have "r \<noteq> None" by blast
    with find_max_Some [OF res] obtain l where l: "r = Some l" "(l, m) \<in> set ?cs" by blast
    have "Max (snd ` set ?cs) = m"
    proof (rule Max_eqI)
      show "finite (snd ` set ?cs)" by simp
      show "y \<le> m" if "y \<in> snd ` set ?cs" for y using that upper by auto
      show "m \<in> snd ` set ?cs" using l(2) by force
    qed
    with l show ?thesis by simp
  qed
  show ?thesis unfolding res fst_conv snd_conv using none_iff zero some by blast
qed

theorem resolver_null_iff_no_positive_candidate_witness:
  "(''Path1_0->1'', 12.5) \<in> set (candidates [(''0->1'', 12.5), (''1->2'', 40)]
       [(''0->1'', 40), (''2->3'', 7)] [''3->4'']) \<and>
   (0::real) < 12.5 \<and>
   (\<exists>l. find_max_latency_excluding_corrupted [(''0->1'', 12.5), (''1->2'', 40)]
           [(''0->1'', 40), (''2->3'', 7)] [''3->4'']
        = (Some l, Max (snd ` set (candidates [(''0->1'', 12.5), (''1->2'', 40)]
                                     [(''0->1'', 40), (''2->3'', 7)] [''3->4'']))))"
proof -
  have h: "(''Path1_0->1'', 12.5) \<in> set (candidates [(''0->1'', 12.5), (''1->2'', 40)]
       [(''0->1'', 40), (''2->3'', 7)] [''3->4'']) \<and> (0::real) < 12.5"
    by (simp add: candidates_def)
  with resolver_null_iff_no_positive_candidate [of "[(''0->1'', 12.5), (''1->2'', 40)]"
      "[(''0->1'', 40), (''2->3'', 7)]" "[''3->4'']"]
  show ?thesis by blast
qed

text \<open>
  C7 as it is written fails where the only candidate has latency 0: path 1 holds the
  entry \<open>0->1\<close> with latency 0, nothing is corrupted, so a candidate exists, and the
  resolver returns the null stage with latency 0.
\<close>

theorem resolver_null_counterexample:
  "candidates [(''0->1'', 0)] [] [] = [(''Path1_0->1'', 0)] \<and>
   ''0->1'' \<notin> set [] \<and>
   find_max_latency_excluding_corrupted [(''0->1'', 0)] [] [] = (None, 0)"
  by (simp add: candidates_def find_max_latency_excluding_corrupted_def)

text \<open>
  C8. The resolver is the scan of its candidates, path 1 (without the corrupted
  labels) first and path 2 after it, each in mapping order, that replaces the running
  maximum on a strict improvement only. So the entry it returns, under its
  \<open>Path1_\<close> or \<open>Path2_\<close> label, is the first candidate with the maximal latency: every
  candidate before it is strictly smaller and none after it is larger. The total
  round-trip time is no candidate: the dominant stage and latency of a parsed record
  are the same whatever total round-trip time the block reports.
\<close>

theorem resolver_first_seen_maximum:
  "find_max_latency_excluding_corrupted p1 p2 c = first_max (candidates p1 p2 c) (None, 0) \<and>
   (\<forall>l v. find_max_latency_excluding_corrupted p1 p2 c = (Some l, v) \<longrightarrow>
      (\<exists>xs ys. candidates p1 p2 c = xs @ (l, v) # ys \<and>
         (\<forall>x \<in> set xs. snd x < v) \<and> (\<forall>y \<in> set ys. snd y \<le> v))) \<and>
   max_stage (session_record ts dir file src dst lsrc ldst sid sq ptrs p1 p2 rtt)
     = max_stage (session_record ts dir file src dst lsrc ldst sid sq ptrs p1 p2 rtt') \<and>
   max_latency (session_record ts dir file src dst lsrc ldst sid sq ptrs p1 p2 rtt)
     = max_latency (session_record ts dir file src dst lsrc ldst sid sq ptrs p1 p2 rtt')"
proof -
  have a: "\<exists>xs ys. candidates p1 p2 c = xs @ (l, v) # ys \<and>
         (\<forall>x \<in> set xs. snd x < v) \<and> (\<forall>y \<in> set ys. snd y \<le> v)"
    if "find_max_latency_excluding_corrupted p1 p2 c = (Some l, v)" for l v
    using find_max_char [OF that] by auto
  have b: "max_stage (session_record ts dir file src dst lsrc ldst sid sq ptrs p1 p2 rtt)
     = max_stage (session_record ts dir file src dst lsrc ldst sid sq ptrs p1 p2 rtt')"
    by (simp add: session_record_def split: prod.splits)
  have c: "max_latency (session_record ts dir file src dst lsrc ldst sid sq ptrs p1 p2 rtt)
     = max_latency (session_record ts dir file src dst lsrc ldst sid sq ptrs p1 p2 rtt')"
    by (simp add: session_record_def split: prod.splits)
  show ?thesis using find_max_first_max a b c by blast
qed

theorem resolver_first_seen_maximum_witness:
  "find_max_latency_excluding_corrupted [(''0->1'', 12.5), (''1->2'', 40)]
       [(''0->1'', 40), (''2->3'', 7)] []
     = (Some ''Path1_1->2'', 40) \<and>
   (\<exists>xs ys. candidates [(''0->1'', 12.5), (''1->2'', 40)] [(''0->1'', 40), (''2->3'', 7)] []
        = xs @ (''Path1_1->2'', 40) # ys \<and>
      (\<forall>x \<in> set xs. snd x < 40) \<and> (\<forall>y \<in> set ys. snd y \<le> 40))"
proof -
  have e: "find_max_latency_excluding_corrupted [(''0->1'', 12.5), (''1->2'', 40)]
       [(''0->1'', 40), (''2->3'', 7)] []
     = (Some ''Path1_1->2'', 40)"
    by (simp add: find_max_latency_excluding_corrupted_def)
  with resolver_first_seen_maximum [of "[(''0->1'', 12.5), (''1->2'', 40)]"
      "[(''0->1'', 40), (''2->3'', 7)]" "[]"]
  show ?thesis by blast
qed

subsection \<open>Bidirectional Analyzer\<close>

text \<open>
  C3. For every outgoing and incoming record, the overall dominant stage and latency
  of the pair are those of the outgoing record, tagged \<open>OUTGOING_\<close>, when its maximal
  latency is at least the incoming one (so also on a tie), and those of the incoming
  record, tagged \<open>INCOMING_\<close>, otherwise; the overall latency is the larger of the two.
  In particular an outgoing maximal latency of 120 and an incoming one of 340 give a
  stage tagged \<open>INCOMING_\<close> and the latency 340.
\<close>

theorem pair_dominant_direction:
  "ca_max_stage (analyze_single_session_pair out inc key) =
     (if max_latency out \<ge> max_latency inc
        then Some (''OUTGOING_'' @ format_opt (max_stage out))
      else Some (''INCOMING_'' @ format_opt (max_stage inc))) \<and>
   ca_max_latency (analyze_single_session_pair out inc key) =
     (if max_latency out \<ge> max_latency inc then max_latency out else max_latency inc) \<and>
   ca_max_latency (analyze_single_session_pair out inc key)
     = max (max_latency out) (max_latency inc) \<and>
   ca_max_stage (analyze_single_session_pair (out\<lparr>max_latency := 120\<rparr>)
       (inc\<lparr>max_latency := 340\<rparr>) key)
     = Some (''INCOMING_'' @ format_opt (max_stage inc)) \<and>
   ca_max_latency (analyze_single_session_pair (out\<lparr>max_latency := 120\<rparr>)
       (inc\<lparr>max_latency := 340\<rparr>) key)
     = 340"
  by (simp add: analyze_single_session_pair_def Let_def max_def split: option.splits)

theorem pair_dominant_direction_witness:
  "ca_max_stage (analyze_single_session_pair
       (example_record OUTGOING ''A'' 7 3 [(''0->1'', 120)] None)
       (example_record INCOMING ''A'' 7 3 [(''3->4'', 340)] None) ''A_7_3'')
     = Some ''INCOMING_Path1_3->4'' \<and>
   ca_max_latency (analyze_single_session_pair
       (example_record OUTGOING ''A'' 7 3 [(''0->1'', 120)] None)
       (example_record INCOMING ''A'' 7 3 [(''3->4'', 340)] None) ''A_7_3'')
     = 340 \<and>
   ca_max_stage (analyze_single_session_pair
       (example_record OUTGOING ''A'' 7 3 [(''0->1'', 120)] None)
       (example_record INCOMING ''A'' 7 3 [(''3->4'', 120)] None) ''A_7_3'')
     = Some ''OUTGOING_Path1_0->1''"
  using pair_dominant_direction [of "example_record OUTGOING ''A'' 7 3 [(''0->1'', 120)] None"
      "example_record INCOMING ''A'' 7 3 [(''3->4'', 340)] None" "''A_7_3''"]
    pair_dominant_direction [of "example_record OUTGOING ''A'' 7 3 [(''0->1'', 120)] None"
      "example_record INCOMING ''A'' 7 3 [(''3->4'', 120)] None" "''A_7_3''"]
  by (simp add: example_record_fields find_max_latency_excluding_corrupted_def format_opt_def)

text \<open>
  C6, as amended. For every matched pair, the estimated one-way physical network
  delay is half the absolute difference of the two total round-trip values whenever
  both values are present and neither is zero, and it is absent whenever one of the
  two values is absent.
\<close>

theorem pair_physical_delay:
  "(\<forall>a b. total_rtt out = Some a \<and> total_rtt inc = Some b \<and> a \<noteq> 0 \<and> b \<noteq> 0 \<longrightarrow>
      ca_physical_network_delay (analyze_single_session_pair out inc key) = Some (\<bar>a - b\<bar> / 2)) \<and>
   (total_rtt out = None \<or> total_rtt inc = None \<longrightarrow>
      ca_physical_network_delay (analyze_single_session_pair out inc key) = None)"
  by (auto simp: analyze_single_session_pair_def Let_def split: option.splits)

theorem pair_physical_delay_witness:
  "ca_physical_network_delay (analyze_single_session_pair
       (example_record OUTGOING ''A'' 7 3 [] (Some 300))
       (example_record INCOMING ''A'' 7 3 [] (Some 100)) ''A_7_3'') = Some 100 \<and>
   ca_physical_network_delay (analyze_single_session_pair
       (example_record OUTGOING ''A'' 7 3 [] (Some 300))
       (example_record INCOMING ''A'' 7 3 [] None) ''A_7_3'') = None"
  using pair_physical_delay [of "example_record OUTGOING ''A'' 7 3 [] (Some 300)"
      "example_record INCOMING ''A'' 7 3 [] (Some 100)" "''A_7_3''"]
    pair_physical_delay [of "example_record OUTGOING ''A'' 7 3 [] (Some 300)"
      "example_record INCOMING ''A'' 7 3 [] None" "''A_7_3''"]
  by (simp add: example_record_fields)

text \<open>
  C6 as it is written fails where a total round-trip value is present and zero: the
  outgoing record reports 0 and the incoming one 100, both are present, half the
  absolute difference is 50, and the analyzer leaves the delay absent.
\<close>

theorem pair_physical_delay_counterexample:
  "total_rtt (example_record OUTGOING ''A'' 7 3 [] (Some 0)) = Some 0 \<and>
   total_rtt (example_record INCOMING ''A'' 7 3 [] (Some 100)) = Some 100 \<and>
   ca_physical_network_delay (analyze_single_session_pair
       (example_record OUTGOING ''A'' 7 3 [] (Some 0))
       (example_record INCOMING ''A'' 7 3 [] (Some 100)) ''A_7_3'') = None \<and>
   \<bar>0 - 100\<bar> / 2 = (50 :: real)"
  by (simp add: example_record_fields analyze_single_session_pair_def Let_def)

subsection \<open>Session Matcher\<close>

text \<open>
  C4. For every list of session records, every pair the matcher emits consists of an
  outgoing and an incoming record of the input that have the same pair name, the same
  session id and the same sequence number; so two records whose pair names differ are
  never joined, whatever their keys are.
\<close>

theorem matcher_never_crosses_groups:
  assumes "(out, inc) \<in> set (fst (match_session_pairs_for_all_nodes sessions))"
  shows "direction out = OUTGOING \<and> direction inc = INCOMING \<and>
         pair_name out = pair_name inc \<and> session_id out = session_id inc \<and> seq out = seq inc \<and>
         out \<in> set sessions \<and> inc \<in> set sessions"
proof -
  let ?gs = "group_by_pair sessions []"
  from assms obtain n ps where g: "(n, ps) \<in> set ?gs"
    and p: "(out, inc) \<in> set (fst (match_pair_group ps))"
    using match_groups_pairs unfolding match_session_pairs_for_all_nodes_def by blast
  from match_pair_group_pairs [OF p] have m: "out \<in> set ps" "inc \<in> set ps"
    "direction out = OUTGOING" "direction inc = INCOMING" "key_of out = key_of inc" by simp_all
  have "\<forall>(p, g) \<in> set ?gs. \<forall>x \<in> set g. pair_name x = p"
    by (rule group_by_pair_names) simp
  with g m have names: "pair_name out = n" "pair_name inc = n" by auto
  have "mset (concat (map snd ?gs)) = mset sessions"
    using group_by_pair_mset [of sessions "[]"] by simp
  then have "set (concat (map snd ?gs)) = set sessions" by (rule mset_eq_setD)
  moreover have "set ps \<subseteq> set (concat (map snd ?gs))" using g by force
  ultimately have "set ps \<subseteq> set sessions" by simp
  with m names show ?thesis by (auto simp: key_of_def)
qed

theorem matcher_never_crosses_groups_witness:
  "match_session_pairs_for_all_nodes
     [example_record OUTGOING ''A'' 7 3 [] None, example_record INCOMING ''B'' 7 3 [] None,
      example_record INCOMING ''A'' 7 3 [] None]
     = ([(example_record OUTGOING ''A'' 7 3 [] None, example_record INCOMING ''A'' 7 3 [] None)],
        [], [example_record INCOMING ''B'' 7 3 [] None]) \<and>
   pair_name (example_record OUTGOING ''A'' 7 3 [] None)
     = pair_name (example_record INCOMING ''A'' 7 3 [] None) \<and>
   example_record INCOMING ''A'' 7 3 [] None
     \<in> set [example_record OUTGOING ''A'' 7 3 [] None, example_record INCOMING ''B'' 7 3 [] None,
          example_record INCOMING ''A'' 7 3 [] None]"
proof -
  have e: "match_session_pairs_for_all_nodes
     [example_record OUTGOING ''A'' 7 3 [] None, example_record INCOMING ''B'' 7 3 [] None,
      example_record INCOMING ''A'' 7 3 [] None]
     = ([(example_record OUTGOING ''A'' 7 3 [] None, example_record INCOMING ''A'' 7 3 [] None)],
        [], [example_record INCOMING ''B'' 7 3 [] None])"
    by (simp add: match_session_pairs_for_all_nodes_def match_pair_group_def Let_def key_of_def
        example_record_fields)
  then have "(example_record OUTGOING ''A'' 7 3 [] None, example_record INCOMING ''A'' 7 3 [] None)
      \<in> set (fst (match_session_pairs_for_all_nodes
          [example_record OUTGOING ''A'' 7 3 [] None, example_record INCOMING ''B'' 7 3 [] None,
           example_record INCOMING ''A'' 7 3 [] None]))"
    by simp
  from matcher_never_crosses_groups [OF this] e show ?thesis by simp
qed

text \<open>
  C10. When no two records of the input agree on pair name, direction, session id and
  sequence number, the matcher partitions the input: the outgoing halves and the
  incoming halves of the matched pairs, the outgoing-only records and the
  incoming-only records are together exactly the records of the input, each once; so
  twice the number of matched pairs plus the numbers of outgoing-only and of
  incoming-only records is the number of input records.
\<close>

theorem matcher_partitions_input:
  assumes uniq: "distinct (map (\<lambda>s. (pair_name s, direction s, session_id s, seq s)) sessions)"
    and res: "match_session_pairs_for_all_nodes sessions = (matched_pairs, outgoing_only, incoming_only)"
  shows "mset (map fst matched_pairs) + mset (map snd matched_pairs) + mset outgoing_only
           + mset incoming_only = mset sessions \<and>
         2 * length matched_pairs + length outgoing_only + length incoming_only = length sessions"
proof -
  let ?gs = "group_by_pair sessions []"
  let ?f = "\<lambda>s. (pair_name s, direction s, key_of s)"
  have all: "mset (concat (map snd ?gs)) = mset sessions"
    using group_by_pair_mset [of sessions "[]"] by simp
  then have "mset (map ?f (concat (map snd ?gs))) = mset (map ?f sessions)"
    by (simp only: mset_map)
  then have "distinct (map ?f (concat (map snd ?gs))) = distinct (map ?f sessions)"
    by (rule mset_eq_imp_distinct_iff)
  moreover have "distinct (map ?f sessions)" using uniq by (simp add: key_of_def)
  ultimately have dc: "distinct (map ?f (concat (map snd ?gs)))"
    by simp
  have names: "\<forall>(p, g) \<in> set ?gs. \<forall>x \<in> set g. pair_name x = p"
    by (rule group_by_pair_names) simp
  have groups: "\<forall>(n, ps) \<in> set ?gs. distinct (map (\<lambda>s. (direction s, key_of s)) ps)"
  proof (clarify)
    fix n ps assume in_gs: "(n, ps) \<in> set ?gs"
    then have "ps \<in> set (map snd ?gs)" by force
    with dc have "distinct (map ?f ps)" by (rule distinct_map_concat_member)
    moreover from names in_gs have "\<forall>x \<in> set ps. pair_name x = n" by auto
    ultimately show "distinct (map (\<lambda>s. (direction s, key_of s)) ps)"
      by (rule group_keys_distinct)
  qed
  from res have "match_groups ?gs ([], [], []) = (matched_pairs, outgoing_only, incoming_only)"
    by (simp add: match_session_pairs_for_all_nodes_def)
  from match_groups_partition [OF groups this] all
  have part: "mset (map fst matched_pairs) + mset (map snd matched_pairs) + mset outgoing_only
           + mset incoming_only = mset sessions"
    by simp
  then have "size (mset (map fst matched_pairs) + mset (map snd matched_pairs) + mset outgoing_only
           + mset incoming_only) = size (mset sessions)"
    by simp
  then have "2 * length matched_pairs + length outgoing_only + length incoming_only = length sessions"
    by simp
  with part show ?thesis by simp
qed

theorem matcher_partitions_input_witness:
  "match_session_pairs_for_all_nodes
     [example_record OUTGOING ''A'' 7 3 [] None, example_record INCOMING ''B'' 7 3 [] None,
      example_record OUTGOING ''A'' 7 4 [] None, example_record INCOMING ''A'' 7 3 [] None]
     = ([(example_record OUTGOING ''A'' 7 3 [] None, example_record INCOMING ''A'' 7 3 [] None)],
        [example_record OUTGOING ''A'' 7 4 [] None], [example_record INCOMING ''B'' 7 3 [] None]) \<and>
   2 * length [(example_record OUTGOING ''A'' 7 3 [] None, example_record INCOMING ''A'' 7 3 [] None)]
     + length [example_record OUTGOING ''A'' 7 4 [] None]
     + length [example_record INCOMING ''B'' 7 3 [] None]
     = length [example_record OUTGOING ''A'' 7 3 [] None, example_record INCOMING ''B'' 7 3 [] None,
         example_record OUTGOING ''A'' 7 4 [] None, example_record INCOMING ''A'' 7 3 [] None]"
proof -
  have d: "distinct (map (\<lambda>s. (pair_name s, direction s, session_id s, seq s))
     [example_record OUTGOING ''A'' 7 3 [] None, example_record INCOMING ''B'' 7 3 [] None,
      example_record OUTGOING ''A'' 7 4 [] None, example_record INCOMING ''A'' 7 3 [] None])"
    by (simp add: example_record_fields)
  have e: "match_session_pairs_for_all_nodes
     [example_record OUTGOING ''A'' 7 3 [] None, example_record INCOMING ''B'' 7 3 [] None,
      example_record OUTGOING ''A'' 7 4 [] None, example_record INCOMING ''A'' 7 3 [] None]
     = ([(example_record OUTGOING ''A'' 7 3 [] None, example_record INCOMING ''A'' 7 3 [] None)],
        [example_record OUTGOING ''A'' 7 4 [] None], [example_record INCOMING ''B'' 7 3 [] None])"
    by (simp add: match_session_pairs_for_all_nodes_def match_pair_group_def Let_def key_of_def
        example_record_fields)
  from matcher_partitions_input [OF d e] e show ?thesis by blast
qed

subsection \<open>Session Record Parser\<close>

text \<open>
  C5. A latency line whose value is the placeholder \<open>N/A\<close> stores nothing: the loop
  goes on, or stops, with the mapping it had. So when the parser returns the mapping
  of a section and every line of that section's body that the latency pattern matches
  with some label carries \<open>N/A\<close>, the mapping has no entry for that label, with the
  value 0 or with any other; the lines of the other sections of the block do not
  matter. For example, after the section's header the lines \<open>[0->1]: 12.5 us\<close>,
  \<open>[1->2]: N/A us\<close> and \<open>[2->3]: 8.0 us\<close> parse to exactly the entries \<open>0->1\<close> with
  12.5 and \<open>2->3\<close> with 8.0.
\<close>

theorem parser_omits_placeholder:
  assumes "parse_path_latencies lines section_name = Inr latencies"
    and "\<forall>line \<in> set (section_body lines section_name False). \<forall>a b v.
           re_search latency_pattern line = Some [a, b, v] \<and> a @ ''->'' @ b = k \<longrightarrow> v = ''N/A''"
  shows "map_of latencies k = None \<and>
    (\<forall>line rest ins lat a b. re_search latency_pattern line = Some [a, b, ''N/A''] \<longrightarrow>
       path_latencies_loop (line # rest) section_name ins lat =
         (if prefix section_name (strip line) then path_latencies_loop rest section_name True lat
          else if (prefix ''Path'' (strip line) \<or> prefix ''Total'' (strip line)) \<and> ins then Inr lat
          else path_latencies_loop rest section_name ins lat)) \<and>
    parse_path_latencies
        [''Path 1 Latencies (us):'', ''[0->1]: 12.5 us'', ''[1->2]: N/A us'', ''[2->3]: 8.0 us'']
        ''Path 1 Latencies''
      = Inr [(''0->1'', 12.5), (''2->3'', 8.0)]"
proof -
  have absent: "map_of latencies k = None"
  proof (rule ccontr)
    assume "map_of latencies k \<noteq> None"
    then obtain x where "(k, x) \<in> set latencies" by (auto dest: map_of_SomeD)
    with assms(1) path_latencies_loop_entries [of lines section_name False "[]" latencies k x]
    obtain line a b v where "line \<in> set (section_body lines section_name False)"
      "re_search latency_pattern line = Some [a, b, v]" "k = a @ ''->'' @ b" "v \<noteq> ''N/A''"
      by (auto simp: parse_path_latencies_def)
    with assms(2) show False by blast
  qed
  have step: "path_latencies_loop (line # rest) section_name ins lat =
         (if prefix section_name (strip line) then path_latencies_loop rest section_name True lat
          else if (prefix ''Path'' (strip line) \<or> prefix ''Total'' (strip line)) \<and> ins then Inr lat
          else path_latencies_loop rest section_name ins lat)"
    if "re_search latency_pattern line = Some [a, b, ''N/A'']" for line rest ins lat a b
    using that by simp
  have example: "parse_path_latencies
        [''Path 1 Latencies (us):'', ''[0->1]: 12.5 us'', ''[1->2]: N/A us'', ''[2->3]: 8.0 us'']
        ''Path 1 Latencies''
      = Inr [(''0->1'', 12.5), (''2->3'', 8.0)]"
    by (simp add: parse_path_latencies_def latency_pattern_def is_space_def is_digit_def strip_def
        py_float_def digits_value_def)
  from absent step example show ?thesis by blast
qed

theorem parser_omits_placeholder_witness:
  "parse_path_latencies
       [''Path 1 Latencies (us):'', ''[0->1]: 12.5 us'', ''[1->2]: N/A us'', ''[2->3]: 8.0 us'',
        ''Path 2 Latencies (us):'', ''[1->2]: 5 us'']
       ''Path 1 Latencies''
     = Inr [(''0->1'', 12.5), (''2->3'', 8.0)] \<and>
   section_body
       [''Path 1 Latencies (us):'', ''[0->1]: 12.5 us'', ''[1->2]: N/A us'', ''[2->3]: 8.0 us'',
        ''Path 2 Latencies (us):'', ''[1->2]: 5 us'']
       ''Path 1 Latencies'' False
     = [''[0->1]: 12.5 us'', ''[1->2]: N/A us'', ''[2->3]: 8.0 us''] \<and>
   re_search latency_pattern ''[1->2]: N/A us'' = Some [''1'', ''2'', ''N/A''] \<and>
   re_search latency_pattern ''[1->2]: 5 us'' = Some [''1'', ''2'', ''5''] \<and>
   map_of [(''0->1'', 12.5), (''2->3'', 8.0 :: real)] ''1->2'' = None"
proof -
  have p: "parse_path_latencies
       [''Path 1 Latencies (us):'', ''[0->1]: 12.5 us'', ''[1->2]: N/A us'', ''[2->3]: 8.0 us'',
        ''Path 2 Latencies (us):'', ''[1->2]: 5 us'']
       ''Path 1 Latencies''
     = Inr [(''0->1'', 12.5), (''2->3'', 8.0)]"
    by (simp add: parse_path_latencies_def latency_pattern_def is_space_def is_digit_def strip_def
        py_float_def digits_value_def)
  have b: "section_body
       [''Path 1 Latencies (us):'', ''[0->1]: 12.5 us'', ''[1->2]: N/A us'', ''[2->3]: 8.0 us'',
        ''Path 2 Latencies (us):'', ''[1->2]: 5 us'']
       ''Path 1 Latencies'' False
     = [''[0->1]: 12.5 us'', ''[1->2]: N/A us'', ''[2->3]: 8.0 us'']"
    by (simp add: is_space_def strip_def)
  have m: "re_search latency_pattern ''[0->1]: 12.5 us'' = Some [''0'', ''1'', ''12.5'']"
    "re_search latency_pattern ''[1->2]: N/A us'' = Some [''1'', ''2'', ''N/A'']"
    "re_search latency_pattern ''[2->3]: 8.0 us'' = Some [''2'', ''3'', ''8.0'']"
    "re_search latency_pattern ''[1->2]: 5 us'' = Some [''1'', ''2'', ''5'']"
    by (simp_all add: latency_pattern_def is_space_def is_digit_def)
  have h: "\<forall>line \<in> set (section_body
       [''Path 1 Latencies (us):'', ''[0->1]: 12.5 us'', ''[1->2]: N/A us'', ''[2->3]: 8.0 us'',
        ''Path 2 Latencies (us):'', ''[1->2]: 5 us'']
       ''Path 1 Latencies'' False).
        \<forall>a b v. re_search latency_pattern line = Some [a, b, v] \<and> a @ ''->'' @ b = ''1->2''
          \<longrightarrow> v = ''N/A''"
    unfolding b by (auto simp: m simp del: re_search.simps)
  from parser_omits_placeholder [OF p h] p b m(2) m(4) show ?thesis by blast
qed

end
